theory Spec2Isabelle
  imports Main
begin

section \<open>Values, step records, contexts and the object store\<close>

text \<open>
  The library is written over \<^verbatim>\<open>unknown\<close> values. The embedding uses a small universe
  of JavaScript values: \<^verbatim>\<open>undefined\<close>, strings, numbers, \<^verbatim>\<open>Error\<close> and \<^verbatim>\<open>TypeError\<close>
  objects (by message) and \<^verbatim>\<open>TaskError\<close> objects (errors.ts): code, context, errors,
  message. A \<^verbatim>\<open>TaskError\<close> holds its context by reference, so the field is the address
  of the context object in the store below.
\<close>

datatype val =
    Undefined
  | Str string
  | Num int
  | ErrorV string
  | TypeErrorV string
  | TaskError string nat "val list" string

text \<open>\<^verbatim>\<open>error instanceof TaskError\<close>\<close>

fun instanceof_TaskError :: "val \<Rightarrow> bool" where
  "instanceof_TaskError (TaskError code ctx errs msg) = True"
| "instanceof_TaskError v = False"

text \<open>\<^verbatim>\<open>new TaskError(code, context, errors)\<close> with the default message of the constructor.\<close>

definition new_TaskError :: "string \<Rightarrow> nat \<Rightarrow> val list \<Rightarrow> val" where
  "new_TaskError code ctx errs = TaskError code ctx errs ''Task failed''"

text \<open>\<^verbatim>\<open>PipelineError\<close> (errors.ts): errors, context (by reference), message.\<close>

datatype pipeline_error = PipelineError "val list" nat string

definition new_PipelineError :: "val list \<Rightarrow> nat \<Rightarrow> pipeline_error" where
  "new_PipelineError errs ctx = PipelineError errs ctx ''Pipeline failed''"

text \<open>
  One entry of \<^verbatim>\<open>BaseContext.steps\<close> (types.ts). The optional properties are
  \<open>None\<close> while they are absent.
\<close>

datatype status = Pending | Success | Failure

record step_record =
  name :: string
  status :: status
  input :: "val option"
  output_val :: "val option"
  error :: "val option"

text \<open>
  A context object: the application's own properties and the \<^verbatim>\<open>steps\<close> array.
  A caller's object that has no \<^verbatim>\<open>steps\<close> property is represented with the empty list.
\<close>

record base_context =
  props :: "(string \<times> val) list"
  steps :: "step_record list"

text \<open>
  Context objects are shared by reference between the pipeline, its tasks, their steps and
  the errors they throw. The store maps addresses to context objects; \<open>fresh\<close> is
  the next address that \<^verbatim>\<open>{ ... }\<close> allocates.
\<close>

record heap =
  objs :: "nat \<Rightarrow> base_context"
  fresh :: nat

definition steps_of :: "heap \<Rightarrow> nat \<Rightarrow> step_record list" where
  "steps_of h c = steps (objs h c)"

text \<open>A call either returns a value or throws one (a rejected promise, once awaited).\<close>

datatype outcome = Returns val | Throws val

text \<open>
  A step (types.ts) is a named function of the input and the context. It runs arbitrary
  code, so it takes the store and returns the store it leaves behind.
\<close>

datatype step = Step (step_name: string) (step_fn: "val \<Rightarrow> nat \<Rightarrow> heap \<Rightarrow> outcome \<times> heap")

section \<open>Task (task.ts)\<close>

datatype task = Task (task_name: string) (task_steps: "step list")

text \<open>
  The constructor: \<^verbatim>\<open>if (steps?.length) this.steps.push(...steps)\<close>. The option is
  \<open>None\<close> when \<^verbatim>\<open>steps\<close> is omitted. A thrown error would be \<open>Inl\<close>.
\<close>

definition new_Task :: "string \<Rightarrow> step list option \<Rightarrow> val + task" where
  "new_Task nm sts =
     (case sts of
        None \<Rightarrow> Inr (Task nm [])
      | Some ss \<Rightarrow> if length ss \<noteq> 0 then Inr (Task nm ([] @ ss)) else Inr (Task nm []))"

text \<open>\<^verbatim>\<open>get id()\<close>: the step names joined by a dot.\<close>

fun join_dot :: "string list \<Rightarrow> string" where
  "join_dot [] = []"
| "join_dot [x] = x"
| "join_dot (x # y # ys) = x @ ''.'' @ join_dot (y # ys)"

definition task_id :: "task \<Rightarrow> string" where
  "task_id t = join_dot (map step_name (task_steps t))"

text \<open>\<^verbatim>\<open>push(...steps)\<close>\<close>

definition push :: "task \<Rightarrow> step list \<Rightarrow> val + task" where
  "push t ss =
     (if length ss = 0 then Inl (TypeErrorV ''Expected at least one step'')
      else Inr (Task (task_name t) (task_steps t @ ss)))"

text \<open>
  \<^verbatim>\<open>context.steps.push(...this.steps.map((step) => ({ name: step.name, status: "pending" })))\<close>
\<close>

definition pending_record :: "step \<Rightarrow> step_record" where
  "pending_record s =
     \<lparr>name = step_name s, status = Pending, input = None, output_val = None, error = None\<rparr>"

definition push_pending :: "step list \<Rightarrow> nat \<Rightarrow> heap \<Rightarrow> heap" where
  "push_pending ss c h =
     h\<lparr>objs := (objs h)(c := (objs h c)\<lparr>steps := steps (objs h c) @ map pending_record ss\<rparr>)\<rparr>"

text \<open>
  A write to \<^verbatim>\<open>context.steps[context.steps.length - 1]\<close>. On an empty array the element
  is \<^verbatim>\<open>undefined\<close> and the assignment throws a \<^verbatim>\<open>TypeError\<close>: every caller below tests
  for the empty array first.
\<close>

definition set_last :: "(step_record \<Rightarrow> step_record) \<Rightarrow> nat \<Rightarrow> heap \<Rightarrow> heap" where
  "set_last f c h =
     (let xs = steps (objs h c); i = length xs - 1
      in h\<lparr>objs := (objs h)(c := (objs h c)\<lparr>steps := xs[i := f (xs ! i)]\<rparr>)\<rparr>)"

definition no_last_record :: "string \<Rightarrow> val" where
  "no_last_record prop =
     TypeErrorV
       (''Cannot set properties of undefined (setting '' @ [CHR 0x27] @ prop @ [CHR 0x27] @ '')'')"

text \<open>
  The body of the \<^verbatim>\<open>try\<close> block: await the step, then mark the last record
  \<^verbatim>\<open>success\<close> and store the output on it.
\<close>

definition try_step :: "step \<Rightarrow> val \<Rightarrow> nat \<Rightarrow> heap \<Rightarrow> (val + val) \<times> heap" where
  "try_step s v c h =
     (case step_fn s v c h of
        (Throws e, h') \<Rightarrow> (Inl e, h')
      | (Returns w, h') \<Rightarrow>
          if steps_of h' c = [] then (Inl (no_last_record ''status''), h')
          else (Inr w, set_last (\<lambda>r. r\<lparr>status := Success, output_val := Some w\<rparr>) c h'))"

text \<open>
  The \<^verbatim>\<open>catch\<close> block: mark the last record \<^verbatim>\<open>failure\<close>, store the error on it, and
  throw the error itself when it is a \<^verbatim>\<open>TaskError\<close>, a new \<^verbatim>\<open>FALL_THROUGH\<close> one otherwise.
\<close>

definition catch_step :: "val \<Rightarrow> nat \<Rightarrow> heap \<Rightarrow> val \<times> heap" where
  "catch_step e c h =
     (if steps_of h c = [] then (no_last_record ''status'', h)
      else (if instanceof_TaskError e then e else new_TaskError ''FALL_THROUGH'' c [e],
            set_last (\<lambda>r. r\<lparr>status := Failure, error := Some e\<rparr>) c h))"

text \<open>The \<^verbatim>\<open>for (const step of this.steps)\<close> loop; \<open>Inl\<close> is the thrown value.\<close>

fun run_steps :: "step list \<Rightarrow> val \<Rightarrow> nat \<Rightarrow> heap \<Rightarrow> (val + val) \<times> heap" where
  "run_steps [] out c h = (Inr out, h)"
| "run_steps (s # ss) out c h =
     (if steps_of h c = [] then (Inl (no_last_record ''input''), h)
      else
        (case try_step s out c (set_last (\<lambda>r. r\<lparr>input := Some out\<rparr>) c h) of
           (Inr w, h') \<Rightarrow> run_steps ss w c h'
         | (Inl e, h') \<Rightarrow> (case catch_step e c h' of (t, h'') \<Rightarrow> (Inl t, h''))))"

text \<open>\<^verbatim>\<open>Task.run(input, context)\<close>; \<open>Inr out\<close> is the returned \<^verbatim>\<open>{ output }\<close>.\<close>

definition Task_run :: "task \<Rightarrow> val \<Rightarrow> nat \<Rightarrow> heap \<Rightarrow> (val + val) \<times> heap" where
  "Task_run t inp c h = run_steps (task_steps t) inp c (push_pending (task_steps t) c h)"

section \<open>Pipeline (pipeline.ts)\<close>

text \<open>
  A configuration is a bare task or an object with a \<^verbatim>\<open>task\<close> and an optional
  \<^verbatim>\<open>selector\<close> property. The property can be absent, present with the value
  \<^verbatim>\<open>undefined\<close>, or a function; \<^verbatim>\<open>"selector" in task\<close> tells the first from the others.
\<close>

datatype selector_prop =
    NoSelector
  | SelectorUndefined
  | Selector "val \<Rightarrow> nat \<Rightarrow> heap \<Rightarrow> outcome \<times> heap"

datatype config = BareTask task | Entry selector_prop task

datatype pipeline = Pipeline (pipeline_name: string) (tasks: "config list")

definition new_Pipeline :: "string \<Rightarrow> config list \<Rightarrow> val + pipeline" where
  "new_Pipeline nm cfgs =
     (if length cfgs = 0 then Inl (TypeErrorV ''Expected at least one task'')
      else Inr (Pipeline nm ([] @ cfgs)))"

text \<open>\<^verbatim>\<open>const taskFn = "task" in task ? task.task : task\<close>\<close>

fun taskFn :: "config \<Rightarrow> task" where
  "taskFn (Entry sel t) = t"
| "taskFn (BareTask t) = t"

text \<open>
  \<^verbatim>\<open>const taskInput = "selector" in task ? task.selector?.(output, ctx) : output\<close>
\<close>

fun taskInput :: "config \<Rightarrow> val \<Rightarrow> nat \<Rightarrow> heap \<Rightarrow> outcome \<times> heap" where
  "taskInput (Entry (Selector f) t) out c h = f out c h"
| "taskInput (Entry SelectorUndefined t) out c h = (Returns Undefined, h)"
| "taskInput (Entry NoSelector t) out c h = (Returns out, h)"
| "taskInput (BareTask t) out c h = (Returns out, h)"

text \<open>The body of the \<^verbatim>\<open>try\<close> block for one configuration.\<close>

definition run_config :: "config \<Rightarrow> val \<Rightarrow> nat \<Rightarrow> heap \<Rightarrow> (val + val) \<times> heap" where
  "run_config cfg out c h =
     (case taskInput cfg out c h of
        (Throws e, h') \<Rightarrow> (Inl e, h')
      | (Returns v, h') \<Rightarrow> Task_run (taskFn cfg) v c h')"

text \<open>
  \<^verbatim>\<open>ctx.steps.filter((step) => step.status === "failure").map((step) => step.error)\<close>;
  an absent \<^verbatim>\<open>error\<close> property reads as \<^verbatim>\<open>undefined\<close>.
\<close>

definition failure_errors :: "step_record list \<Rightarrow> val list" where
  "failure_errors xs =
     map (\<lambda>r. case error r of None \<Rightarrow> Undefined | Some e \<Rightarrow> e)
       (filter (\<lambda>r. status r = Failure) xs)"

text \<open>The \<^verbatim>\<open>for (const task of this.tasks)\<close> loop.\<close>

fun run_configs :: "config list \<Rightarrow> val \<Rightarrow> nat \<Rightarrow> heap \<Rightarrow> (pipeline_error + val) \<times> heap" where
  "run_configs [] out c h = (Inr out, h)"
| "run_configs (cfg # cfgs) out c h =
     (case run_config cfg out c h of
        (Inr w, h') \<Rightarrow> run_configs cfgs w c h'
      | (Inl e, h') \<Rightarrow> (Inl (new_PipelineError (failure_errors (steps_of h' c)) c), h'))"

text \<open>
  \<^verbatim>\<open>const baseContext = { steps: [] }; const ctx = { ...context, ...baseContext }\<close>:
  a new object with the caller's properties and a new empty \<^verbatim>\<open>steps\<close> array.
\<close>

definition new_ctx :: "nat \<Rightarrow> heap \<Rightarrow> nat \<times> heap" where
  "new_ctx a h =
     (fresh h,
      h\<lparr>objs := (objs h)(fresh h := \<lparr>props = props (objs h a), steps = []\<rparr>),
        fresh := Suc (fresh h)\<rparr>)"

text \<open>
  \<^verbatim>\<open>Pipeline.run(input, context)\<close>, \<open>a\<close> the address of the caller's context;
  \<open>Inr (out, c)\<close> is the returned \<^verbatim>\<open>{ output, context: ctx }\<close>.
\<close>

definition Pipeline_run ::
  "pipeline \<Rightarrow> val \<Rightarrow> nat \<Rightarrow> heap \<Rightarrow> (pipeline_error + val \<times> nat) \<times> heap" where
  "Pipeline_run p inp a h =
     (case new_ctx a h of
        (c, h0) \<Rightarrow>
          (case run_configs (tasks p) inp c h0 of
             (Inl e, h') \<Rightarrow> (Inl e, h')
           | (Inr out, h') \<Rightarrow> (Inr (out, c), h')))"

section \<open>Observations used to state the properties\<close>

text \<open>
  The step contract: a step function (or a selector) leaves the \<^verbatim>\<open>steps\<close> array of the
  context it is given as it found it; the task runner alone writes the log.
\<close>

definition keeps_steps :: "(val \<Rightarrow> nat \<Rightarrow> heap \<Rightarrow> outcome \<times> heap) \<Rightarrow> bool" where
  "keeps_steps f = (\<forall>v c h. steps_of (snd (f v c h)) c = steps_of h c)"

text \<open>A function that, called on another context, does not write to the object at \<open>a\<close>.\<close>

definition leaves_object :: "nat \<Rightarrow> (val \<Rightarrow> nat \<Rightarrow> heap \<Rightarrow> outcome \<times> heap) \<Rightarrow> bool" where
  "leaves_object a f = (\<forall>v c h. c \<noteq> a \<longrightarrow> objs (snd (f v c h)) a = objs h a)"

text \<open>The user functions of a configuration: its selector, if any, and its task's steps.\<close>

fun config_fns :: "config \<Rightarrow> (val \<Rightarrow> nat \<Rightarrow> heap \<Rightarrow> outcome \<times> heap) list" where
  "config_fns (Entry (Selector f) t) = f # map step_fn (task_steps t)"
| "config_fns (Entry sel t) = map step_fn (task_steps t)"
| "config_fns (BareTask t) = map step_fn (task_steps t)"

text \<open>
  The records each configuration's task added to the log of \<open>c\<close>, as its run left them,
  one list per configuration that ran.
\<close>

fun task_logs :: "config list \<Rightarrow> val \<Rightarrow> nat \<Rightarrow> heap \<Rightarrow> step_record list list" where
  "task_logs [] out c h = []"
| "task_logs (cfg # cfgs) out c h =
     (case run_config cfg out c h of
        (Inr w, h') \<Rightarrow> drop (length (steps_of h c)) (steps_of h' c) # task_logs cfgs w c h'
      | (Inl e, h') \<Rightarrow> [drop (length (steps_of h c)) (steps_of h' c)])"

section \<open>Concrete runs\<close>

text \<open>A store with one caller-made context \<^verbatim>\<open>{ steps: [] }\<close> at address 0.\<close>

definition empty_heap :: heap where
  "empty_heap = \<lparr>objs = (\<lambda>a. \<lparr>props = [], steps = []\<rparr>), fresh = 1\<rparr>"

text \<open>\<^verbatim>\<open>x => "a:" + x\<close> and \<^verbatim>\<open>y => y + ":b"\<close>, on strings.\<close>

definition step_a :: step where
  "step_a = Step ''a'' (\<lambda>v c h. (Returns (case v of Str x \<Rightarrow> Str (''a:'' @ x) | _ \<Rightarrow> v), h))"

definition step_b :: step where
  "step_b = Step ''b'' (\<lambda>v c h. (Returns (case v of Str y \<Rightarrow> Str (y @ '':b'') | _ \<Rightarrow> v), h))"

text \<open>\<^verbatim>\<open>() => { throw new Error("boom") }\<close>\<close>

definition step_boom :: step where
  "step_boom = Step ''boom'' (\<lambda>v c h. (Throws (ErrorV ''boom''), h))"

text \<open>
  \<^verbatim>\<open>(_, context) => context.steps.map((r) => r.status).join(",")\<close>: a step that
  reports the statuses it finds in the log when it starts.
\<close>

fun status_name :: "status \<Rightarrow> string" where
  "status_name Pending = ''pending''"
| "status_name Success = ''success''"
| "status_name Failure = ''failure''"

fun join_comma :: "string list \<Rightarrow> string" where
  "join_comma [] = []"
| "join_comma [x] = x"
| "join_comma (x # y # ys) = x @ '','' @ join_comma (y # ys)"

definition step_probe :: step where
  "step_probe =
     Step ''probe'' (\<lambda>v c h. (Returns (Str (join_comma (map (status_name \<circ> status) (steps_of h c)))), h))"

text \<open>\<^verbatim>\<open>(out) => out + "!"\<close>, on strings.\<close>

definition bang :: "val \<Rightarrow> nat \<Rightarrow> heap \<Rightarrow> outcome \<times> heap" where
  "bang v c h = (Returns (case v of Str x \<Rightarrow> Str (x @ ''!'') | _ \<Rightarrow> v), h)"

text \<open>
  A step that throws a \<^verbatim>\<open>TaskError\<close>, as a task run nested in the step would:
  \<^verbatim>\<open>(_, context) => { throw new TaskError("FALL_THROUGH", context, [new Error("inner")]) }\<close>
\<close>

definition step_nested :: step where
  "step_nested =
     Step ''nested''
       (\<lambda>v c h. (Throws (TaskError ''FALL_THROUGH'' c [ErrorV ''inner''] ''Task failed''), h))"

text \<open>
  A store whose caller-made context at address 0 has a property of its own and a stale
  \<^verbatim>\<open>steps\<close> array.
\<close>

definition caller_heap :: heap where
  "caller_heap =
     \<lparr>objs = (\<lambda>a. \<lparr>props = [(''user'', Str ''ann'')],
                     steps = [\<lparr>name = ''old'', status = Failure, input = None,
                               output_val = None, error = Some (ErrorV ''stale'')\<rparr>]\<rparr>),
      fresh = 1\<rparr>"

text \<open>Two tasks, the second behind a selector; three tasks, the second of which fails.\<close>

definition two_tasks :: "config list" where
  "two_tasks = [BareTask (Task ''t1'' [step_a]), Entry (Selector bang) (Task ''t2'' [step_b])]"

definition three_tasks :: "config list" where
  "three_tasks =
     [BareTask (Task ''t1'' [step_a]), BareTask (Task ''t2'' [step_boom]),
      BareTask (Task ''t3'' [step_b])]"

text \<open>\<^verbatim>\<open>x => x\<close>, and a pipeline whose second entry is \<^verbatim>\<open>{ selector: undefined, task }\<close>.\<close>

definition step_echo :: step where
  "step_echo = Step ''echo'' (\<lambda>v c h. (Returns v, h))"

definition undefined_selector_tasks :: "config list" where
  "undefined_selector_tasks =
     [BareTask (Task ''t1'' [step_a]), Entry SelectorUndefined (Task ''t2'' [step_echo])]"

section \<open>The log under the writes of the task runner\<close>

lemma steps_of_push_pending:
  "steps_of (push_pending ss c h) c = steps_of h c @ map pending_record ss"
  by (simp add: steps_of_def push_pending_def)

lemma steps_of_set_last:
  "steps_of h c = xs @ [r] \<Longrightarrow> steps_of (set_last f c h) c = xs @ [f r]"
  by (simp add: steps_of_def set_last_def Let_def)

lemma steps_of_set_last_nonempty:
  "steps_of h c \<noteq> [] \<Longrightarrow>
   steps_of (set_last f c h) c = butlast (steps_of h c) @ [f (last (steps_of h c))]"
  using steps_of_set_last [of h c "butlast (steps_of h c)" "last (steps_of h c)" f]
  by simp

lemma try_step_steps:
  assumes "keeps_steps (step_fn s)" and "steps_of h c = xs @ [r]"
  shows "case try_step s v c h of
           (Inr w, h') \<Rightarrow> steps_of h' c = xs @ [r\<lparr>status := Success, output_val := Some w\<rparr>]
         | (Inl e, h') \<Rightarrow> steps_of h' c = xs @ [r]"
proof -
  obtain res h1 where call: "step_fn s v c h = (res, h1)"
    by (cases "step_fn s v c h")
  from assms(1) have "steps_of (snd (step_fn s v c h)) c = steps_of h c"
    by (simp add: keeps_steps_def)
  with call assms(2) have kept: "steps_of h1 c = xs @ [r]"
    by simp
  show ?thesis
    by (cases res) (simp_all add: try_step_def call kept steps_of_set_last)
qed

lemma catch_step_steps:
  assumes "steps_of h c = xs @ [r]"
  shows "catch_step e c h =
           (if instanceof_TaskError e then e else new_TaskError ''FALL_THROUGH'' c [e],
            set_last (\<lambda>r. r\<lparr>status := Failure, error := Some e\<rparr>) c h)"
  using assms by (simp add: catch_step_def)

text \<open>
  The log after the loop, when every step keeps it: the loop writes to the last record only,
  whichever step is running.
\<close>

lemma run_steps_log:
  assumes "\<forall>s \<in> set ss. keeps_steps (step_fn s)" and "steps_of h c = xs @ [r]"
  shows "\<exists>r'. steps_of (snd (run_steps ss out c h)) c = xs @ [r'] \<and> name r' = name r \<and>
           (case fst (run_steps ss out c h) of
              Inr w \<Rightarrow> (if ss = [] then r' = r else status r' = Success \<and> output_val r' = Some w)
            | Inl t \<Rightarrow> status r' = Failure \<and>
                (\<exists>e. error r' = Some e \<and>
                     t = (if instanceof_TaskError e then e else new_TaskError ''FALL_THROUGH'' c [e])))"
  using assms
proof (induction ss arbitrary: out h r)
  case Nil
  then show ?case by simp
next
  case (Cons s ss)
  let ?h1 = "set_last (\<lambda>r. r\<lparr>input := Some out\<rparr>) c h"
  have log1: "steps_of ?h1 c = xs @ [r\<lparr>input := Some out\<rparr>]"
    using Cons.prems(2) by (rule steps_of_set_last)
  have keep: "keeps_steps (step_fn s)" and keeps: "\<forall>s \<in> set ss. keeps_steps (step_fn s)"
    using Cons.prems(1) by simp_all
  obtain res h2 where tr: "try_step s out c ?h1 = (res, h2)"
    by (cases "try_step s out c ?h1")
  have nonempty: "steps_of h c \<noteq> []"
    using Cons.prems(2) by simp
  show ?case
  proof (cases res)
    case (Inr w)
    with try_step_steps [OF keep log1, of out] tr
    have log2: "steps_of h2 c = xs @ [r\<lparr>input := Some out, status := Success, output_val := Some w\<rparr>]"
      by simp
    from Cons.IH [OF keeps log2, of w] obtain r' where
      r': "steps_of (snd (run_steps ss w c h2)) c = xs @ [r']" "name r' = name r"
        "(case fst (run_steps ss w c h2) of
              Inr w' \<Rightarrow> (if ss = [] then r' = r\<lparr>input := Some out, status := Success, output_val := Some w\<rparr> else status r' = Success \<and> output_val r' = Some w')
            | Inl t \<Rightarrow> status r' = Failure \<and>
                (\<exists>e. error r' = Some e \<and>
                     t = (if instanceof_TaskError e then e else new_TaskError ''FALL_THROUGH'' c [e])))"
      by auto
    have run: "run_steps (s # ss) out c h = run_steps ss w c h2"
      using nonempty tr Inr by simp
    show ?thesis
    proof (cases "ss = []")
      case True
      with r' show ?thesis unfolding run by auto
    next
      case False
      with r' show ?thesis unfolding run
        by (cases "fst (run_steps ss w c h2)") auto
    qed
  next
    case (Inl e)
    with try_step_steps [OF keep log1, of out] tr
    have log2: "steps_of h2 c = xs @ [r\<lparr>input := Some out\<rparr>]"
      by simp
    have run: "run_steps (s # ss) out c h =
        (Inl (if instanceof_TaskError e then e else new_TaskError ''FALL_THROUGH'' c [e]),
         set_last (\<lambda>r. r\<lparr>status := Failure, error := Some e\<rparr>) c h2)"
      using nonempty tr Inl by (simp add: catch_step_steps [OF log2])
    show ?thesis
      unfolding run by (simp add: steps_of_set_last [OF log2])
  qed
qed

lemma map_butlast_last: "xs \<noteq> [] \<Longrightarrow> map f xs = map f (butlast xs) @ [f (last xs)]"
  by (induction xs) auto

lemma pending_not_failure: "filter (\<lambda>r. status r = Failure) (map pending_record ss) = []"
  by (induction ss) (simp_all add: pending_record_def)

lemma pending_status: "r \<in> set (map pending_record ss) \<Longrightarrow> status r = Pending"
  by (auto simp: pending_record_def)

lemma run_steps_append:
  "run_steps pre inp c h = (Inr v, h1) \<Longrightarrow>
   run_steps (pre @ post) inp c h = run_steps post v c h1"
proof (induction pre arbitrary: inp h)
  case Nil
  then show ?case by simp
next
  case (Cons s pre)
  then show ?case
    by (auto split: if_splits prod.splits sum.splits)
qed

lemma run_configs_append:
  "run_configs pre inp c h = (Inr v, h1) \<Longrightarrow>
   run_configs (pre @ post) inp c h = run_configs post v c h1"
proof (induction pre arbitrary: inp h)
  case Nil
  then show ?case by simp
next
  case (Cons s pre)
  then show ?case
    by (auto split: if_splits prod.splits sum.splits)
qed

section \<open>Task.run\<close>

lemmas run_defs = Task_run_def push_pending_def try_step_def catch_step_def set_last_def
  steps_of_def empty_heap_def pending_record_def new_TaskError_def

text \<open>
  C1. The specification has a successful run of a task with N steps leave N new records that
  all end in \<^verbatim>\<open>success\<close>, the last one carrying the returned output. The run of the two
  steps \<^verbatim>\<open>x => "a:" + x\<close> and \<^verbatim>\<open>y => y + ":b"\<close> on \<^verbatim>\<open>"1"\<close> returns \<^verbatim>\<open>"a:1:b"\<close>, appends
  two records and stores the output on the last one, but every write of the loop goes to
  the last record of the log, so the record of the first step is still \<^verbatim>\<open>pending\<close> when
  the run has returned.
\<close>

theorem Task_run_two_steps_log:
  "fst (Task_run (Task ''t'' [step_a, step_b]) (Str ''1'') 0 empty_heap) = Inr (Str ''a:1:b'') \<and>
   map status (steps_of (snd (Task_run (Task ''t'' [step_a, step_b]) (Str ''1'') 0 empty_heap)) 0)
     = [Pending, Success] \<and>
   map output_val
     (steps_of (snd (Task_run (Task ''t'' [step_a, step_b]) (Str ''1'') 0 empty_heap)) 0)
     = [None, Some (Str ''a:1:b'')]"
  by (simp add: run_defs step_a_def step_b_def)

text \<open>
  C3. One record per step is appended, in step order and \<^verbatim>\<open>pending\<close>, before any step
  runs, and the specification has each record finalized before the next step begins. A
  second step that reports the statuses it finds when it starts sees the record of the
  first step still \<^verbatim>\<open>pending\<close> and its own record already marked \<^verbatim>\<open>success\<close>: the
  first step's result was written to the last record.
\<close>

theorem Task_run_probe_second_step:
  "fst (Task_run (Task ''t'' [step_a, step_probe]) (Str ''1'') 0 empty_heap)
     = Inr (Str ''pending,success'')"
  by (simp add: run_defs step_a_def step_probe_def)

text \<open>
  C10. A task can be constructed with \<^verbatim>\<open>steps\<close> omitted or empty, the constructor throws
  nothing, and the run of such a task returns its input as the output and leaves the
  context, and the whole store, as it was: no record is appended.
\<close>

theorem Task_run_no_steps:
  "new_Task nm None = Inr (Task nm []) \<and>
   new_Task nm (Some []) = Inr (Task nm []) \<and>
   Task_run (Task nm []) inp c h = (Inr inp, h)"
  by (simp add: new_Task_def Task_run_def push_pending_def)

text \<open>
  C8. The steps run in order, each on the value the one before it returned. Let the steps
  before \<open>s\<close> have returned, leaving the value \<open>v\<close> (the task's input when \<open>s\<close> is the
  first step, since the empty loop returns its input). The run calls \<open>s\<close> on \<open>v\<close>, after
  storing \<open>v\<close> as the input of the last record, and when that call returns \<open>w\<close> the run
  goes on with the remaining steps on \<open>w\<close>. The log is assumed not to have been emptied by
  a step. On \<^verbatim>\<open>[x => "a:" + x, y => y + ":b"]\<close> and \<^verbatim>\<open>"1"\<close> the run returns \<^verbatim>\<open>"a:1:b"\<close>.
\<close>

theorem Task_run_sequencing:
  assumes "run_steps pre inp c (push_pending (pre @ s # post) c h) = (Inr v, h1)"
    and "steps_of h1 c \<noteq> []"
    and "step_fn s v c (set_last (\<lambda>r. r\<lparr>input := Some v\<rparr>) c h1) = (Returns w, h2)"
    and "steps_of h2 c \<noteq> []"
  shows "Task_run (Task nm (pre @ s # post)) inp c h =
           run_steps post w c (set_last (\<lambda>r. r\<lparr>status := Success, output_val := Some w\<rparr>) c h2)"
proof -
  have "run_steps (s # post) v c h1 =
          run_steps post w c (set_last (\<lambda>r. r\<lparr>status := Success, output_val := Some w\<rparr>) c h2)"
    using assms(2-4) by (simp add: try_step_def)
  with run_steps_append [OF assms(1), of "s # post"] show ?thesis
    by (simp add: Task_run_def)
qed

theorem Task_run_sequencing_witness:
  "run_steps [step_a] (Str ''1'') 0 (push_pending [step_a, step_b] 0 empty_heap)
     = (Inr (Str ''a:1''),
        snd (run_steps [step_a] (Str ''1'') 0 (push_pending [step_a, step_b] 0 empty_heap))) \<and>
   fst (step_fn step_b (Str ''a:1'') 0 empty_heap) = Returns (Str ''a:1:b'') \<and>
   fst (Task_run (Task ''t'' [step_a, step_b]) (Str ''1'') 0 empty_heap) = Inr (Str ''a:1:b'')"
proof -
  let ?h0 = "push_pending ([step_a] @ step_b # []) 0 empty_heap"
  let ?h1 = "snd (run_steps [step_a] (Str ''1'') 0 ?h0)"
  let ?h2 = "set_last (\<lambda>r. r\<lparr>input := Some (Str ''a:1'')\<rparr>) 0 ?h1"
  have 1: "run_steps [step_a] (Str ''1'') 0 ?h0 = (Inr (Str ''a:1''), ?h1)"
    by (simp add: run_defs step_a_def)
  have 2: "steps_of ?h1 0 \<noteq> []"
    by (simp add: run_defs step_a_def)
  have 3: "step_fn step_b (Str ''a:1'') 0 ?h2 = (Returns (Str ''a:1:b''), ?h2)"
    by (simp add: step_b_def)
  have 4: "steps_of ?h2 0 \<noteq> []"
    by (simp add: run_defs step_a_def)
  from Task_run_sequencing [OF 1 2 3 4, of "''t''"] 1 show ?thesis
    by (simp add: step_b_def)
qed

text \<open>
  What the \<^verbatim>\<open>catch\<close> block does when a step raises: the last record of
  \<^verbatim>\<open>context.steps\<close> is marked \<^verbatim>\<open>failure\<close> and the raw error is stored on it; the run
  throws a \<^verbatim>\<open>TaskError\<close> with code \<^verbatim>\<open>FALL_THROUGH\<close> that holds the raw error and the
  context of the run, or the raised value itself when it is a \<^verbatim>\<open>TaskError\<close> already. The
  result does not depend on the steps after the raising one: none of them runs. The log is
  assumed not to have been emptied by a step.
\<close>

lemma Task_run_step_raises:
  assumes "run_steps pre inp c (push_pending (pre @ s # post) c h) = (Inr v, h1)"
    and "steps_of h1 c \<noteq> []"
    and "step_fn s v c (set_last (\<lambda>r. r\<lparr>input := Some v\<rparr>) c h1) = (Throws e, h2)"
    and "steps_of h2 c \<noteq> []"
  shows "Task_run (Task nm (pre @ s # post)) inp c h =
           (Inl (if instanceof_TaskError e then e
                 else TaskError ''FALL_THROUGH'' c [e] ''Task failed''),
            set_last (\<lambda>r. r\<lparr>status := Failure, error := Some e\<rparr>) c h2) \<and>
         steps_of (set_last (\<lambda>r. r\<lparr>status := Failure, error := Some e\<rparr>) c h2) c =
           butlast (steps_of h2 c) @ [(last (steps_of h2 c))\<lparr>status := Failure, error := Some e\<rparr>]"
proof -
  have "run_steps (s # post) v c h1 =
          (Inl (if instanceof_TaskError e then e
                else TaskError ''FALL_THROUGH'' c [e] ''Task failed''),
           set_last (\<lambda>r. r\<lparr>status := Failure, error := Some e\<rparr>) c h2)"
    using assms(2-4) by (simp add: try_step_def catch_step_def new_TaskError_def)
  with run_steps_append [OF assms(1), of "s # post"]
  have "Task_run (Task nm (pre @ s # post)) inp c h =
           (Inl (if instanceof_TaskError e then e
                 else TaskError ''FALL_THROUGH'' c [e] ''Task failed''),
            set_last (\<lambda>r. r\<lparr>status := Failure, error := Some e\<rparr>) c h2)"
    by (simp add: Task_run_def)
  moreover note steps_of_set_last_nonempty [OF assms(4)]
  ultimately show ?thesis by simp
qed

lemma Task_run_step_raises_example:
  "fst (Task_run (Task ''t'' [step_a, step_boom, step_b]) (Str ''1'') 0 empty_heap)
     = Inl (TaskError ''FALL_THROUGH'' 0 [ErrorV ''boom''] ''Task failed'') \<and>
   fst (Task_run (Task ''t'' [step_a, step_nested, step_b]) (Str ''1'') 0 empty_heap)
     = Inl (TaskError ''FALL_THROUGH'' 0 [ErrorV ''inner''] ''Task failed'')"
proof -
  let ?h1 = "\<lambda>s. snd (run_steps [step_a] (Str ''1'') 0 (push_pending ([step_a] @ s # [step_b]) 0 empty_heap))"
  let ?h2 = "\<lambda>s. set_last (\<lambda>r. r\<lparr>input := Some (Str ''a:1'')\<rparr>) 0 (?h1 s)"
  have 1: "run_steps [step_a] (Str ''1'') 0 (push_pending ([step_a] @ s # [step_b]) 0 empty_heap) = (Inr (Str ''a:1''), ?h1 s)" for s
    by (simp add: run_defs step_a_def)
  have 2: "steps_of (?h1 s) 0 \<noteq> []" for s
    by (simp add: run_defs step_a_def)
  have 3: "step_fn step_boom (Str ''a:1'') 0 (?h2 step_boom) = (Throws (ErrorV ''boom''), ?h2 step_boom)"
    by (simp add: step_boom_def)
  have 5: "step_fn step_nested (Str ''a:1'') 0 (?h2 step_nested)
      = (Throws (TaskError ''FALL_THROUGH'' 0 [ErrorV ''inner''] ''Task failed''), ?h2 step_nested)"
    by (simp add: step_nested_def)
  have 4: "steps_of (?h2 s) 0 \<noteq> []" for s
    by (simp add: run_defs step_a_def)
  from Task_run_step_raises [OF 1 2 3 4, of "''t''"] Task_run_step_raises [OF 1 2 5 4, of "''t''"]
  show ?thesis
    by simp
qed

text \<open>
  C4. When a step raises, the specification has the record of that step marked
  \<^verbatim>\<open>failure\<close> with the raw error on it, and the run throw a \<^verbatim>\<open>FALL_THROUGH\<close>
  \<^verbatim>\<open>TaskError\<close> holding the raw error and the context. When step 2 of
  \<^verbatim>\<open>[x => "a:" + x, () => { throw new Error("boom") }, y => y + ":b"]\<close> raises on the input
  \<^verbatim>\<open>"1"\<close>, the thrown error is as specified, but the record of the raising step is left
  \<^verbatim>\<open>pending\<close> with no input and no error: the failure, the raw error and the input of the
  raising step are written to the record of the third step, which never ran, next to the
  output of the first step.
\<close>

theorem Task_run_raising_step_record:
  "fst (Task_run (Task ''t'' [step_a, step_boom, step_b]) (Str ''1'') 0 empty_heap)
     = Inl (TaskError ''FALL_THROUGH'' 0 [ErrorV ''boom''] ''Task failed'') \<and>
   steps_of (snd (Task_run (Task ''t'' [step_a, step_boom, step_b]) (Str ''1'') 0 empty_heap)) 0
     = [\<lparr>name = ''a'', status = Pending, input = None, output_val = None, error = None\<rparr>,
        \<lparr>name = ''boom'', status = Pending, input = None, output_val = None, error = None\<rparr>,
        \<lparr>name = ''b'', status = Failure, input = Some (Str ''a:1''),
           output_val = Some (Str ''a:1''), error = Some (ErrorV ''boom'')\<rparr>]"
  by (simp add: run_defs step_a_def step_boom_def step_b_def)

text \<open>
  C2 as stated fails on the scenario: when step 2 of 3 throws \<^verbatim>\<open>Error("boom")\<close> the
  thrown \<^verbatim>\<open>TaskError\<close> holds \<^verbatim>\<open>[Error("boom")]\<close>, but \<^verbatim>\<open>context.steps[1]\<close> is still
  \<^verbatim>\<open>pending\<close> and \<^verbatim>\<open>context.steps[2]\<close> exists: all three records were appended before
  the first step ran.
\<close>

theorem Task_run_boom_log:
  "fst (Task_run (Task ''t'' [step_a, step_boom, step_b]) (Str ''1'') 0 empty_heap)
     = Inl (TaskError ''FALL_THROUGH'' 0 [ErrorV ''boom''] ''Task failed'') \<and>
   map status (steps_of (snd (Task_run (Task ''t'' [step_a, step_boom, step_b]) (Str ''1'') 0 empty_heap)) 0)
     = [Pending, Pending, Failure]"
  by (simp add: run_defs step_a_def step_boom_def step_b_def)

text \<open>
  C2, amended. Let the steps keep the log, let the steps before \<open>s\<close> return and let
  \<open>s\<close>, step k of N, raise \<open>e\<close>. The run throws \<open>e\<close> itself when it is a
  \<^verbatim>\<open>TaskError\<close> and a \<^verbatim>\<open>FALL_THROUGH\<close> \<^verbatim>\<open>TaskError\<close> holding \<open>[e]\<close> otherwise; the log has
  grown by N records, one per step of the task, all created before the first step ran;
  exactly one of them ends in \<^verbatim>\<open>failure\<close>; and none of the records k..N ends in
  \<^verbatim>\<open>success\<close>.
\<close>

theorem Task_run_failing_step_log:
  assumes "\<forall>x \<in> set (pre @ [s]). keeps_steps (step_fn x)"
    and "run_steps pre inp c (push_pending (pre @ s # post) c h) = (Inr v, h1)"
    and "step_fn s v c (set_last (\<lambda>r. r\<lparr>input := Some v\<rparr>) c h1) = (Throws e, h2)"
  shows "\<exists>recs h'. Task_run (Task nm (pre @ s # post)) inp c h =
              (Inl (if instanceof_TaskError e then e
                    else TaskError ''FALL_THROUGH'' c [e] ''Task failed''), h') \<and>
            steps_of h' c = steps_of h c @ recs \<and>
            length recs = length (pre @ s # post) \<and>
            length (filter (\<lambda>r. status r = Failure) recs) = 1 \<and>
            (\<forall>r \<in> set (drop (length pre) recs). status r \<noteq> Success)"
proof -
  let ?all = "pre @ s # post"
  let ?h0 = "push_pending ?all c h"
  let ?xs = "steps_of h c @ map pending_record (butlast ?all)"
  let ?pend = "map pending_record (butlast ?all)"
  have "map pending_record ?all = ?pend @ [pending_record (last ?all)]"
    by (rule map_butlast_last) simp
  then have log0: "steps_of ?h0 c = ?xs @ [pending_record (last ?all)]"
    by (simp add: steps_of_push_pending)
  have keeps: "\<forall>x \<in> set pre. keeps_steps (step_fn x)" and keep: "keeps_steps (step_fn s)"
    using assms(1) by simp_all
  from run_steps_log [OF keeps log0, of inp] assms(2)
  obtain r1 where log1: "steps_of h1 c = ?xs @ [r1]"
    by auto
  let ?h1' = "set_last (\<lambda>r. r\<lparr>input := Some v\<rparr>) c h1"
  have log1': "steps_of ?h1' c = ?xs @ [r1\<lparr>input := Some v\<rparr>]"
    using log1 by (rule steps_of_set_last)
  from keep have "steps_of (snd (step_fn s v c ?h1')) c = steps_of ?h1' c"
    by (simp add: keeps_steps_def)
  with assms(3) log1' have log2: "steps_of h2 c = ?xs @ [r1\<lparr>input := Some v\<rparr>]"
    by simp
  let ?h3 = "set_last (\<lambda>r. r\<lparr>status := Failure, error := Some e\<rparr>) c h2"
  let ?rF = "r1\<lparr>input := Some v, status := Failure, error := Some e\<rparr>"
  have log3: "steps_of ?h3 c = ?xs @ [?rF]"
    using steps_of_set_last [OF log2] by simp
  have "run_steps (s # post) v c h1 =
          (Inl (if instanceof_TaskError e then e
                else TaskError ''FALL_THROUGH'' c [e] ''Task failed''), ?h3)"
    using log1 log2 assms(3) by (simp add: try_step_def catch_step_def new_TaskError_def)
  with run_steps_append [OF assms(2), of "s # post"]
  have run: "Task_run (Task nm ?all) inp c h =
           (Inl (if instanceof_TaskError e then e
                 else TaskError ''FALL_THROUGH'' c [e] ''Task failed''), ?h3)"
    by (simp add: Task_run_def)
  let ?recs = "?pend @ [?rF]"
  have a: "steps_of ?h3 c = steps_of h c @ ?recs"
    using log3 by simp
  have b: "length ?recs = length ?all"
    by simp
  have c: "length (filter (\<lambda>r. status r = Failure) ?recs) = 1"
    by (simp add: pending_not_failure del: butlast_append)
  have d: "\<forall>r \<in> set (drop (length pre) ?recs). status r \<noteq> Success"
  proof
    fix r assume "r \<in> set (drop (length pre) ?recs)"
    then have "r \<in> set ?recs" by (rule in_set_dropD)
    then have "r \<in> set ?pend \<or> r = ?rF" by auto
    then show "status r \<noteq> Success"
      using pending_status [of r "butlast ?all"] by auto
  qed
  from run a b c d show ?thesis by blast
qed

theorem Task_run_failing_step_log_witness:
  "keeps_steps (step_fn step_a) \<and> keeps_steps (step_fn step_boom) \<and>
   fst (Task_run (Task ''t'' [step_a, step_boom, step_b]) (Str ''1'') 0 empty_heap)
     = Inl (TaskError ''FALL_THROUGH'' 0 [ErrorV ''boom''] ''Task failed'') \<and>
   length (steps_of (snd (Task_run (Task ''t'' [step_a, step_boom, step_b]) (Str ''1'') 0
     empty_heap)) 0) = 3 \<and>
   length (filter (\<lambda>r. status r = Failure)
     (steps_of (snd (Task_run (Task ''t'' [step_a, step_boom, step_b]) (Str ''1'') 0
       empty_heap)) 0)) = 1"
proof -
  let ?h0 = "push_pending ([step_a] @ step_boom # [step_b]) 0 empty_heap"
  let ?h1 = "snd (run_steps [step_a] (Str ''1'') 0 ?h0)"
  let ?h2 = "set_last (\<lambda>r. r\<lparr>input := Some (Str ''a:1'')\<rparr>) 0 ?h1"
  have ka: "keeps_steps (step_fn step_a)" and kb: "keeps_steps (step_fn step_boom)"
    by (simp_all add: keeps_steps_def step_a_def step_boom_def)
  then have 0: "\<forall>x \<in> set ([step_a] @ [step_boom]). keeps_steps (step_fn x)"
    by simp
  have 1: "run_steps [step_a] (Str ''1'') 0 ?h0 = (Inr (Str ''a:1''), ?h1)"
    by (simp add: run_defs step_a_def)
  have 3: "step_fn step_boom (Str ''a:1'') 0 ?h2 = (Throws (ErrorV ''boom''), ?h2)"
    by (simp add: step_boom_def)
  have old: "steps_of empty_heap 0 = []"
    by (simp add: steps_of_def empty_heap_def)
  from Task_run_failing_step_log [OF 0 1 3, of "''t''"]
  obtain recs h' where
    run: "Task_run (Task ''t'' ([step_a] @ step_boom # [step_b])) (Str ''1'') 0 empty_heap =
      (Inl (if instanceof_TaskError (ErrorV ''boom'') then ErrorV ''boom''
            else TaskError ''FALL_THROUGH'' 0 [ErrorV ''boom''] ''Task failed''), h')"
    and log: "steps_of h' 0 = steps_of empty_heap 0 @ recs"
    and len: "length recs = length ([step_a] @ step_boom # [step_b])"
    and one: "length (filter (\<lambda>r. status r = Failure) recs) = 1"
    by blast
  from run have r: "Task_run (Task ''t'' [step_a, step_boom, step_b]) (Str ''1'') 0 empty_heap =
      (Inl (TaskError ''FALL_THROUGH'' 0 [ErrorV ''boom''] ''Task failed''), h')"
    by simp
  from log old have l: "steps_of h' 0 = recs"
    by simp
  from len have n: "length recs = 3"
    by simp
  show ?thesis
    unfolding r fst_conv snd_conv l using ka kb n one by simp
qed

section \<open>Pipeline.run\<close>

lemmas pipeline_defs = Pipeline_run_def new_ctx_def run_config_def new_PipelineError_def
  failure_errors_def caller_heap_def bang_def

text \<open>
  What a run of a task with at least one step leaves in the log, when the steps keep it: the
  records of all steps but the last are as they were appended, \<^verbatim>\<open>pending\<close> and without
  input, whether the run returned or threw; only the last record has been written to.
\<close>

lemma Task_run_log_shape:
  assumes "\<forall>s \<in> set (task_steps t). keeps_steps (step_fn s)" and "task_steps t \<noteq> []"
  shows "\<exists>r'. steps_of (snd (Task_run t v c h)) c =
                steps_of h c @ map pending_record (butlast (task_steps t)) @ [r'] \<and>
              name r' = step_name (last (task_steps t))"
proof -
  let ?ss = "task_steps t"
  let ?xs = "steps_of h c @ map pending_record (butlast ?ss)"
  have "map pending_record ?ss = map pending_record (butlast ?ss) @ [pending_record (last ?ss)]"
    using assms(2) by (rule map_butlast_last)
  then have log0: "steps_of (push_pending ?ss c h) c = ?xs @ [pending_record (last ?ss)]"
    by (simp add: steps_of_push_pending)
  from run_steps_log [OF assms(1) log0, of v]
  obtain r' where log: "steps_of (snd (Task_run t v c h)) c = ?xs @ [r']"
    and nm: "name r' = name (pending_record (last ?ss))"
    by (auto simp: Task_run_def)
  from nm have "name r' = step_name (last ?ss)"
    by (simp add: pending_record_def)
  with log show ?thesis
    by simp
qed

text \<open>
  So the record of a step that is not the last one of its task is never written to,
  whatever that step does: return or raise.
\<close>

lemma Task_run_record_not_last:
  assumes "\<forall>x \<in> set (pre @ s # post). keeps_steps (step_fn x)" and "post \<noteq> []"
  shows "steps_of (snd (Task_run (Task nm (pre @ s # post)) v c h)) c
           ! (length (steps_of h c) + length pre) = pending_record s"
proof -
  let ?t = "Task nm (pre @ s # post)"
  have keeps: "\<forall>x \<in> set (task_steps ?t). keeps_steps (step_fn x)"
    using assms(1) by simp
  have ne: "task_steps ?t \<noteq> []"
    by simp
  from Task_run_log_shape [OF keeps ne, of v c h]
  obtain r' where log: "steps_of (snd (Task_run ?t v c h)) c =
      steps_of h c @ map pending_record (butlast (pre @ s # post)) @ [r']"
    by auto
  have "butlast (pre @ s # post) = pre @ s # butlast post"
    using assms(2) by (simp add: butlast_append)
  then have "steps_of (snd (Task_run ?t v c h)) c =
      (steps_of h c @ map pending_record pre) @ pending_record s #
        (map pending_record (butlast post) @ [r'])"
    using log by simp
  then have "steps_of (snd (Task_run ?t v c h)) c
      ! length (steps_of h c @ map pending_record pre) = pending_record s"
    by (simp only: nth_append_length)
  then show ?thesis
    by simp
qed

lemma Task_run_log:
  assumes "\<forall>s \<in> set (task_steps t). keeps_steps (step_fn s)"
  shows "\<exists>recs. steps_of (snd (Task_run t v c h)) c = steps_of h c @ recs \<and>
           map name recs = map step_name (task_steps t)"
proof (cases "task_steps t = []")
  case True
  then show ?thesis
    by (simp add: Task_run_def steps_of_push_pending)
next
  case False
  let ?ss = "task_steps t"
  from Task_run_log_shape [OF assms False, of v c h]
  obtain r' where log: "steps_of (snd (Task_run t v c h)) c =
      steps_of h c @ map pending_record (butlast ?ss) @ [r']"
    and nm: "name r' = step_name (last ?ss)"
    by blast
  have names: "map name (map pending_record (butlast ?ss) @ [r']) = map step_name ?ss"
    using nm map_butlast_last [OF False, of step_name]
    by (simp add: pending_record_def comp_def)
  from log names show ?thesis
    by (intro exI [of _ "map pending_record (butlast ?ss) @ [r']"]) simp
qed

lemma run_config_log:
  assumes "\<forall>f \<in> set (config_fns cfg). keeps_steps f"
    and "run_config cfg v c h = (Inr w, h')"
  shows "\<exists>recs. steps_of h' c = steps_of h c @ recs \<and>
           map name recs = map step_name (task_steps (taskFn cfg))"
proof -
  obtain res h1 where sel: "taskInput cfg v c h = (res, h1)"
    by (cases "taskInput cfg v c h")
  have kept: "steps_of h1 c = steps_of h c"
  proof (cases cfg)
    case (BareTask t)
    with sel show ?thesis by simp
  next
    case (Entry sp t)
    show ?thesis
    proof (cases sp)
      case (Selector f)
      with Entry assms(1) have "keeps_steps f" by simp
      then have "steps_of (snd (f v c h)) c = steps_of h c"
        by (simp add: keeps_steps_def)
      with sel Entry Selector show ?thesis by simp
    qed (use sel Entry in auto)
  qed
  have ks: "\<forall>s \<in> set (task_steps (taskFn cfg)). keeps_steps (step_fn s)"
    using assms(1) by (cases cfg rule: config_fns.cases) auto
  from assms(2) sel obtain x where "res = Returns x"
    and run: "Task_run (taskFn cfg) x c h1 = (Inr w, h')"
    by (cases res) (auto simp: run_config_def)
  with Task_run_log [OF ks, of x c h1] kept show ?thesis
    by simp
qed

lemma run_configs_logs:
  assumes "\<forall>cfg \<in> set cfgs. \<forall>f \<in> set (config_fns cfg). keeps_steps f"
    and "run_configs cfgs inp c h = (Inr out, h')"
  shows "steps_of h' c = steps_of h c @ concat (task_logs cfgs inp c h) \<and>
         map (map name) (task_logs cfgs inp c h) =
           map (\<lambda>cfg. map step_name (task_steps (taskFn cfg))) cfgs"
  using assms
proof (induction cfgs arbitrary: inp h)
  case Nil
  then show ?case by simp
next
  case (Cons cfg cfgs)
  from Cons.prems(2) obtain w h1 where
    one: "run_config cfg inp c h = (Inr w, h1)" and rest: "run_configs cfgs w c h1 = (Inr out, h')"
    by (auto split: prod.splits sum.splits)
  from Cons.prems(1) have k1: "\<forall>f \<in> set (config_fns cfg). keeps_steps f"
    and ks: "\<forall>cfg \<in> set cfgs. \<forall>f \<in> set (config_fns cfg). keeps_steps f"
    by simp_all
  from run_config_log [OF k1 one] obtain recs where
    log1: "steps_of h1 c = steps_of h c @ recs"
    and names: "map name recs = map step_name (task_steps (taskFn cfg))"
    by blast
  from Cons.IH [OF ks rest] log1 names one show ?case
    by simp
qed

lemma run_configs_last:
  assumes "run_configs cfgs inp c h = (Inr out, h')" and "cfgs \<noteq> []"
  shows "\<exists>v h1. Task_run (taskFn (last cfgs)) v c h1 = (Inr out, h')"
  using assms
proof (induction cfgs arbitrary: inp h)
  case Nil
  then show ?case by simp
next
  case (Cons cfg cfgs)
  from Cons.prems(1) obtain w h1 where
    one: "run_config cfg inp c h = (Inr w, h1)" and rest: "run_configs cfgs w c h1 = (Inr out, h')"
    by (auto split: prod.splits sum.splits)
  show ?case
  proof (cases "cfgs = []")
    case True
    with rest have "w = out" "h1 = h'" by simp_all
    with one True show ?thesis
      by (auto simp: run_config_def split: prod.splits outcome.splits)
  next
    case False
    with Cons.IH [OF rest] show ?thesis by simp
  qed
qed

text \<open>
  C6. Let the pipeline be constructed from M configurations whose steps and selectors keep
  the log, and let its run succeed with \<^verbatim>\<open>{ output, context }\<close>. The context is the one
  the run created; the output is what the run of the last configuration's task returned;
  and \<^verbatim>\<open>context.steps\<close> is the concatenation, in order, of the M lists of records that
  the M tasks added, each list holding one record per step of its task, in step order.
\<close>

theorem Pipeline_run_success:
  assumes "new_Pipeline nm cfgs = Inr p"
    and "\<forall>cfg \<in> set cfgs. \<forall>f \<in> set (config_fns cfg). keeps_steps f"
    and "Pipeline_run p inp a h = (Inr (out, c), h')"
  shows "c = fresh h \<and>
         (\<exists>v h1. Task_run (taskFn (last cfgs)) v c h1 = (Inr out, h')) \<and>
         steps_of h' c = concat (task_logs cfgs inp c (snd (new_ctx a h))) \<and>
         length (task_logs cfgs inp c (snd (new_ctx a h))) = length cfgs \<and>
         map (map name) (task_logs cfgs inp c (snd (new_ctx a h))) =
           map (\<lambda>cfg. map step_name (task_steps (taskFn cfg))) cfgs"
proof -
  from assms(1) have p: "p = Pipeline nm cfgs" and ne: "cfgs \<noteq> []"
    by (auto simp: new_Pipeline_def split: if_splits)
  let ?h0 = "snd (new_ctx a h)"
  from assms(3) p have c: "c = fresh h" and run: "run_configs cfgs inp c ?h0 = (Inr out, h')"
    by (auto simp: Pipeline_run_def new_ctx_def split: prod.splits sum.splits)
  have empty: "steps_of ?h0 c = []"
    using c by (simp add: new_ctx_def steps_of_def)
  from run_configs_logs [OF assms(2) run] empty
  have log: "steps_of h' c = concat (task_logs cfgs inp c ?h0)"
    and names: "map (map name) (task_logs cfgs inp c ?h0) =
           map (\<lambda>cfg. map step_name (task_steps (taskFn cfg))) cfgs"
    by simp_all
  from names have "length (map (map name) (task_logs cfgs inp c ?h0)) = length cfgs"
    by simp
  then have len: "length (task_logs cfgs inp c ?h0) = length cfgs"
    by simp
  from c run_configs_last [OF run ne] log len names show ?thesis
    by blast
qed

theorem Pipeline_run_success_witness:
  "new_Pipeline ''p'' two_tasks = Inr (Pipeline ''p'' two_tasks) \<and>
   fst (Pipeline_run (Pipeline ''p'' two_tasks) (Str ''hi'') 0 caller_heap)
     = Inr (Str ''a:hi!:b'', 1) \<and>
   map name (steps_of (snd (Pipeline_run (Pipeline ''p'' two_tasks) (Str ''hi'') 0 caller_heap)) 1)
     = [''a'', ''b'']"
proof -
  let ?run = "Pipeline_run (Pipeline ''p'' two_tasks) (Str ''hi'') 0 caller_heap"
  have 1: "new_Pipeline ''p'' two_tasks = Inr (Pipeline ''p'' two_tasks)"
    by (simp add: new_Pipeline_def two_tasks_def)
  have 2: "\<forall>cfg \<in> set two_tasks. \<forall>f \<in> set (config_fns cfg). keeps_steps f"
    by (simp add: two_tasks_def keeps_steps_def step_a_def step_b_def bang_def)
  have out: "fst ?run = Inr (Str ''a:hi!:b'', 1)"
    by (simp add: pipeline_defs run_defs two_tasks_def step_a_def step_b_def)
  then have 3: "?run = (Inr (Str ''a:hi!:b'', 1), snd ?run)"
    by (simp add: prod_eq_iff)
  from Pipeline_run_success [OF 1 2 3]
  have log: "steps_of (snd ?run) 1 =
      concat (task_logs two_tasks (Str ''hi'') 1 (snd (new_ctx 0 caller_heap)))"
    and names: "map (map name) (task_logs two_tasks (Str ''hi'') 1 (snd (new_ctx 0 caller_heap))) =
           map (\<lambda>cfg. map step_name (task_steps (taskFn cfg))) two_tasks"
    by blast+
  have "map name (steps_of (snd ?run) 1) =
      concat (map (map name) (task_logs two_tasks (Str ''hi'') 1 (snd (new_ctx 0 caller_heap))))"
    unfolding log by (simp add: map_concat)
  also have "\<dots> = [''a'', ''b'']"
    unfolding names by (simp add: two_tasks_def step_a_def step_b_def)
  finally show ?thesis
    using 1 out by simp
qed

text \<open>
  C5. Let the configurations before \<open>cfg\<close> succeed and let \<open>cfg\<close> throw, in its
  selector or in its task. The run throws a \<^verbatim>\<open>PipelineError\<close> whose context is the shared
  context and whose errors are the \<^verbatim>\<open>error\<close> properties of the records of the whole log
  whose status is \<^verbatim>\<open>failure\<close>, and it leaves the store as \<open>cfg\<close> left it: whatever
  the configurations after \<open>cfg\<close> are, none runs and no record of theirs is appended.
\<close>

theorem Pipeline_run_config_throws:
  assumes "run_configs pre inp (fresh h) (snd (new_ctx a h)) = (Inr v, h1)"
    and "run_config cfg v (fresh h) h1 = (Inl e, h2)"
  shows "Pipeline_run (Pipeline nm (pre @ cfg # post)) inp a h =
           (Inl (PipelineError
                   (map (\<lambda>r. case error r of None \<Rightarrow> Undefined | Some x \<Rightarrow> x)
                      (filter (\<lambda>r. status r = Failure) (steps_of h2 (fresh h))))
                   (fresh h) ''Pipeline failed''),
            h2)"
proof -
  have "run_configs (cfg # post) v (fresh h) h1 =
          (Inl (new_PipelineError (failure_errors (steps_of h2 (fresh h))) (fresh h)), h2)"
    using assms(2) by simp
  with run_configs_append [OF assms(1), of "cfg # post"] show ?thesis
    by (simp add: Pipeline_run_def new_ctx_def new_PipelineError_def failure_errors_def)
qed

theorem Pipeline_run_config_throws_witness:
  "fst (run_config (BareTask (Task ''t2'' [step_boom])) (Str ''a:1'') 1
         (snd (run_configs [BareTask (Task ''t1'' [step_a])] (Str ''1'') 1 (snd (new_ctx 0 caller_heap)))))
     = Inl (TaskError ''FALL_THROUGH'' 1 [ErrorV ''boom''] ''Task failed'') \<and>
   fst (Pipeline_run (Pipeline ''p'' three_tasks) (Str ''1'') 0 caller_heap)
     = Inl (PipelineError [ErrorV ''boom''] 1 ''Pipeline failed'') \<and>
   map name (steps_of (snd (Pipeline_run (Pipeline ''p'' three_tasks) (Str ''1'') 0 caller_heap)) 1)
     = [''a'', ''boom'']"
proof -
  let ?c = "fresh caller_heap"
  let ?h0 = "snd (new_ctx 0 caller_heap)"
  let ?h1 = "snd (run_configs [BareTask (Task ''t1'' [step_a])] (Str ''1'') ?c ?h0)"
  let ?h2 = "snd (run_config (BareTask (Task ''t2'' [step_boom])) (Str ''a:1'') ?c ?h1)"
  have c: "?c = 1"
    by (simp add: caller_heap_def)
  have 1: "run_configs [BareTask (Task ''t1'' [step_a])] (Str ''1'') ?c ?h0 = (Inr (Str ''a:1''), ?h1)"
    by (simp add: pipeline_defs run_defs step_a_def)
  have e: "fst (run_config (BareTask (Task ''t2'' [step_boom])) (Str ''a:1'') ?c ?h1)
      = Inl (TaskError ''FALL_THROUGH'' 1 [ErrorV ''boom''] ''Task failed'')"
    by (simp add: pipeline_defs run_defs step_a_def step_boom_def)
  then have 2: "run_config (BareTask (Task ''t2'' [step_boom])) (Str ''a:1'') ?c ?h1
      = (Inl (TaskError ''FALL_THROUGH'' 1 [ErrorV ''boom''] ''Task failed''), ?h2)"
    by (simp add: prod_eq_iff)
  have log: "steps_of ?h2 ?c =
      [\<lparr>name = ''a'', status = Success, input = Some (Str ''1''), output_val = Some (Str ''a:1''),
         error = None\<rparr>,
       \<lparr>name = ''boom'', status = Failure, input = Some (Str ''a:1''), output_val = None,
         error = Some (ErrorV ''boom'')\<rparr>]"
    by (simp add: pipeline_defs run_defs step_a_def step_boom_def)
  from Pipeline_run_config_throws [OF 1 2, of "''p''" "[BareTask (Task ''t3'' [step_b])]"]
  have "Pipeline_run (Pipeline ''p'' three_tasks) (Str ''1'') 0 caller_heap =
          (Inl (PipelineError [ErrorV ''boom''] 1 ''Pipeline failed''), ?h2)"
    unfolding log by (simp add: three_tasks_def c)
  then show ?thesis
    using e log by (simp add: c)
qed

text \<open>
  An entry whose \<^verbatim>\<open>selector\<close> property is present with the value \<^verbatim>\<open>undefined\<close>, which
  the type \<^verbatim>\<open>selector?:\<close> admits, has no selector, but \<^verbatim>\<open>"selector" in task\<close> holds for
  it and \<^verbatim>\<open>task.selector?.(output, ctx)\<close> is \<^verbatim>\<open>undefined\<close>: that is the task's input,
  whatever the accumulated output is.
\<close>

lemma run_config_selector_undefined:
  "run_config (Entry SelectorUndefined t) out c h = Task_run t Undefined c h"
  by (simp add: run_config_def)

text \<open>
  C7. The specification has a configuration with a selector deliver the selector's result
  to its task and every configuration with no selector deliver the accumulated output
  unchanged. In the pipeline \<^verbatim>\<open>[t1, { selector: undefined, task: t2 }]\<close>, with
  \<^verbatim>\<open>x => "a:" + x\<close> the step of \<^verbatim>\<open>t1\<close> and \<^verbatim>\<open>x => x\<close> the step of \<^verbatim>\<open>t2\<close>, run on
  \<^verbatim>\<open>"hi"\<close>, the first task returns \<^verbatim>\<open>"a:hi"\<close> and the second entry has no selector, yet
  its task receives \<^verbatim>\<open>undefined\<close>, not \<^verbatim>\<open>"a:hi"\<close>: the pipeline returns \<^verbatim>\<open>undefined\<close>.
\<close>

theorem Pipeline_run_selector_undefined:
  "fst (run_configs [BareTask (Task ''t1'' [step_a])] (Str ''hi'') 1 (snd (new_ctx 0 caller_heap)))
     = Inr (Str ''a:hi'') \<and>
   fst (Pipeline_run (Pipeline ''p'' undefined_selector_tasks) (Str ''hi'') 0 caller_heap)
     = Inr (Undefined, 1) \<and>
   map input
     (steps_of (snd (Pipeline_run (Pipeline ''p'' undefined_selector_tasks) (Str ''hi'') 0
        caller_heap)) 1)
     = [Some (Str ''hi''), Some Undefined]"
  by (simp add: pipeline_defs run_defs undefined_selector_tasks_def step_a_def step_echo_def)

text \<open>
  What holds of the inputs: let the configurations before the i-th succeed with the
  accumulated output \<open>prevOutput\<close>. A bare task is run on \<open>prevOutput\<close>; an entry
  with no \<^verbatim>\<open>selector\<close> property runs as the bare task does; and an entry with the
  selector \<open>s\<close> runs as the bare task does on what \<open>s\<close> returns for \<open>prevOutput\<close>
  and the shared context (a selector that throws fails the pipeline).
\<close>

lemma Pipeline_run_task_input:
  assumes "run_configs pre inp c h = (Inr prevOutput, h1)"
  shows "run_configs (pre @ Entry (Selector s) t # post) inp c h =
           (case s prevOutput c h1 of
              (Returns x, h2) \<Rightarrow> run_configs (BareTask t # post) x c h2
            | (Throws e, h2) \<Rightarrow>
                (Inl (PipelineError
                        (map (\<lambda>r. case error r of None \<Rightarrow> Undefined | Some x \<Rightarrow> x)
                           (filter (\<lambda>r. status r = Failure) (steps_of h2 c)))
                        c ''Pipeline failed''), h2)) \<and>
         run_configs (pre @ Entry NoSelector t # post) inp c h =
           run_configs (BareTask t # post) prevOutput c h1 \<and>
         run_configs (pre @ BareTask t # post) inp c h =
           (case Task_run t prevOutput c h1 of
              (Inr w, h2) \<Rightarrow> run_configs post w c h2
            | (Inl e, h2) \<Rightarrow>
                (Inl (PipelineError
                        (map (\<lambda>r. case error r of None \<Rightarrow> Undefined | Some x \<Rightarrow> x)
                           (filter (\<lambda>r. status r = Failure) (steps_of h2 c)))
                        c ''Pipeline failed''), h2))"
proof -
  have a: "run_configs (pre @ cfg # post) inp c h = run_configs (cfg # post) prevOutput c h1" for cfg
    using assms by (rule run_configs_append)
  show ?thesis
    unfolding a
    by (simp add: run_config_def new_PipelineError_def failure_errors_def
        split: prod.splits outcome.splits sum.splits)
qed

lemma Pipeline_run_task_input_example:
  "run_configs [BareTask (Task ''t1'' [step_a])] (Str ''hi'') 1 (snd (new_ctx 0 caller_heap))
     = (Inr (Str ''a:hi''),
        snd (run_configs [BareTask (Task ''t1'' [step_a])] (Str ''hi'') 1 (snd (new_ctx 0 caller_heap)))) \<and>
   fst (bang (Str ''a:hi'') 1 caller_heap) = Returns (Str ''a:hi!'') \<and>
   fst (run_configs two_tasks (Str ''hi'') 1 (snd (new_ctx 0 caller_heap))) = Inr (Str ''a:hi!:b'')"
proof -
  let ?h0 = "snd (new_ctx 0 caller_heap)"
  let ?h1 = "snd (run_configs [BareTask (Task ''t1'' [step_a])] (Str ''hi'') 1 ?h0)"
  have 1: "run_configs [BareTask (Task ''t1'' [step_a])] (Str ''hi'') 1 ?h0 = (Inr (Str ''a:hi''), ?h1)"
    by (simp add: pipeline_defs run_defs step_a_def)
  have sel: "bang (Str ''a:hi'') 1 ?h1 = (Returns (Str ''a:hi!''), ?h1)"
    by (simp add: bang_def)
  have rest: "fst (run_configs [BareTask (Task ''t2'' [step_b])] (Str ''a:hi!'') 1 ?h1) = Inr (Str ''a:hi!:b'')"
    by (simp add: pipeline_defs run_defs step_a_def step_b_def)
  from Pipeline_run_task_input [OF 1, of bang "Task ''t2'' [step_b]" "[]"]
  have "run_configs two_tasks (Str ''hi'') 1 ?h0 =
          run_configs [BareTask (Task ''t2'' [step_b])] (Str ''a:hi!'') 1 ?h1"
    unfolding sel by (simp add: two_tasks_def)
  with rest 1 show ?thesis
    by (simp add: bang_def)
qed

section \<open>The caller's context\<close>

lemma objs_push_pending_other: "a \<noteq> c \<Longrightarrow> objs (push_pending ss c h) a = objs h a"
  by (simp add: push_pending_def)

lemma objs_set_last_other: "a \<noteq> c \<Longrightarrow> objs (set_last f c h) a = objs h a"
  by (simp add: set_last_def Let_def)

lemma leaves_objectD: "leaves_object a f \<Longrightarrow> c \<noteq> a \<Longrightarrow> objs (snd (f v c h)) a = objs h a"
  by (simp add: leaves_object_def)

lemma try_step_other:
  assumes "leaves_object a (step_fn s)" and "c \<noteq> a"
  shows "objs (snd (try_step s v c h)) a = objs h a"
proof -
  obtain res h1 where call: "step_fn s v c h = (res, h1)"
    by (cases "step_fn s v c h")
  with leaves_objectD [OF assms, of v h] have "objs h1 a = objs h a"
    by simp
  with call assms(2) show ?thesis
    by (cases res) (simp_all add: try_step_def objs_set_last_other)
qed

lemma catch_step_other: "c \<noteq> a \<Longrightarrow> objs (snd (catch_step e c h)) a = objs h a"
  by (simp add: catch_step_def objs_set_last_other)

lemma run_steps_other:
  assumes "\<forall>s \<in> set ss. leaves_object a (step_fn s)" and "c \<noteq> a"
  shows "objs (snd (run_steps ss out c h)) a = objs h a"
  using assms(1)
proof (induction ss arbitrary: out h)
  case Nil
  then show ?case by simp
next
  case (Cons s ss)
  let ?h1 = "set_last (\<lambda>r. r\<lparr>input := Some out\<rparr>) c h"
  obtain res h2 where tr: "try_step s out c ?h1 = (res, h2)"
    by (cases "try_step s out c ?h1")
  from Cons.prems have "leaves_object a (step_fn s)"
    by simp
  from try_step_other [OF this assms(2), of out ?h1] tr assms(2)
  have h2: "objs h2 a = objs h a"
    by (simp add: objs_set_last_other)
  show ?case
  proof (cases res)
    case (Inr w)
    with Cons tr h2 show ?thesis by simp
  next
    case (Inl e)
    obtain t h3 where ca: "catch_step e c h2 = (t, h3)"
      by (cases "catch_step e c h2")
    with catch_step_other [OF assms(2), of e h2] h2 have "objs h3 a = objs h a"
      by simp
    with Inl tr ca show ?thesis by simp
  qed
qed

lemma Task_run_other:
  assumes "\<forall>s \<in> set (task_steps t). leaves_object a (step_fn s)" and "c \<noteq> a"
  shows "objs (snd (Task_run t v c h)) a = objs h a"
  using run_steps_other [OF assms, of v "push_pending (task_steps t) c h"] assms(2)
  by (simp add: Task_run_def objs_push_pending_other)

lemma run_config_other:
  assumes "\<forall>f \<in> set (config_fns cfg). leaves_object a f" and "c \<noteq> a"
  shows "objs (snd (run_config cfg v c h)) a = objs h a"
proof -
  obtain res h1 where sel: "taskInput cfg v c h = (res, h1)"
    by (cases "taskInput cfg v c h")
  have kept: "objs h1 a = objs h a"
  proof (cases cfg)
    case (BareTask t)
    with sel show ?thesis by simp
  next
    case (Entry sp t)
    show ?thesis
    proof (cases sp)
      case (Selector f)
      with Entry assms(1) have "leaves_object a f" by simp
      from leaves_objectD [OF this assms(2), of v h] sel Entry Selector show ?thesis
        by simp
    qed (use sel Entry in auto)
  qed
  have ks: "\<forall>s \<in> set (task_steps (taskFn cfg)). leaves_object a (step_fn s)"
    using assms(1) by (cases cfg rule: config_fns.cases) auto
  show ?thesis
  proof (cases res)
    case (Returns x)
    with sel kept Task_run_other [OF ks assms(2), of x h1] show ?thesis
      by (simp add: run_config_def)
  next
    case (Throws e)
    with sel kept show ?thesis
      by (simp add: run_config_def)
  qed
qed

lemma run_configs_other:
  assumes "\<forall>cfg \<in> set cfgs. \<forall>f \<in> set (config_fns cfg). leaves_object a f" and "c \<noteq> a"
  shows "objs (snd (run_configs cfgs inp c h)) a = objs h a"
  using assms(1)
proof (induction cfgs arbitrary: inp h)
  case Nil
  then show ?case by simp
next
  case (Cons cfg cfgs)
  obtain res h1 where one: "run_config cfg inp c h = (res, h1)"
    by (cases "run_config cfg inp c h")
  from Cons.prems have "\<forall>f \<in> set (config_fns cfg). leaves_object a f"
    by simp
  from run_config_other [OF this assms(2), of inp h] one have h1: "objs h1 a = objs h a"
    by simp
  show ?case
  proof (cases res)
    case (Inr w)
    with Cons one h1 show ?thesis by simp
  next
    case (Inl e)
    with one h1 show ?thesis by simp
  qed
qed

lemma run_configs_context:
  "fst (run_configs cfgs inp c h) = Inl (PipelineError errs c' msg) \<Longrightarrow> c' = c"
proof (induction cfgs arbitrary: inp h)
  case Nil
  then show ?case by simp
next
  case (Cons cfg cfgs)
  obtain res h1 where one: "run_config cfg inp c h = (res, h1)"
    by (cases "run_config cfg inp c h")
  show ?case
  proof (cases res)
    case (Inr w)
    with Cons one show ?thesis by simp
  next
    case (Inl e)
    with Cons.prems one show ?thesis by (simp add: new_PipelineError_def)
  qed
qed

text \<open>
  C9. Let the caller's context be the object at \<open>a\<close>, and let no step or selector of
  the pipeline write to it when called on another context. The run creates a new object
  at a new address, with the caller's properties and an empty \<^verbatim>\<open>steps\<close> array whatever
  the caller's \<^verbatim>\<open>steps\<close> was; it runs every configuration on the new object, which is
  the context it returns or the context of the \<^verbatim>\<open>PipelineError\<close> it throws; and it leaves
  the caller's object as it was.
\<close>

theorem Pipeline_run_fresh_context:
  assumes "a < fresh h"
    and "\<forall>cfg \<in> set (tasks p). \<forall>f \<in> set (config_fns cfg). leaves_object a f"
  shows "objs (snd (Pipeline_run p inp a h)) a = objs h a \<and>
         fst (new_ctx a h) = fresh h \<and> fresh h \<noteq> a \<and>
         objs (snd (new_ctx a h)) (fresh h) = \<lparr>props = props (objs h a), steps = []\<rparr> \<and>
         Pipeline_run p inp a h =
           (case run_configs (tasks p) inp (fresh h) (snd (new_ctx a h)) of
              (Inl e, h') \<Rightarrow> (Inl e, h')
            | (Inr out, h') \<Rightarrow> (Inr (out, fresh h), h')) \<and>
         (case fst (Pipeline_run p inp a h) of
            Inl (PipelineError errs c msg) \<Rightarrow> c = fresh h
          | Inr (out, c) \<Rightarrow> c = fresh h)"
proof -
  let ?c = "fresh h"
  let ?h0 = "snd (new_ctx a h)"
  let ?r = "run_configs (tasks p) inp ?c ?h0"
  from assms(1) have ne: "?c \<noteq> a"
    by simp
  have new: "new_ctx a h = (?c, ?h0)"
    by (simp add: new_ctx_def)
  have run: "Pipeline_run p inp a h =
           (case ?r of (Inl e, h') \<Rightarrow> (Inl e, h') | (Inr out, h') \<Rightarrow> (Inr (out, ?c), h'))"
    by (simp add: Pipeline_run_def new_ctx_def)
  have h0: "objs ?h0 a = objs h a"
    using ne by (simp add: new_ctx_def)
  have obj: "objs ?h0 ?c = \<lparr>props = props (objs h a), steps = []\<rparr>"
    by (simp add: new_ctx_def)
  from run_configs_other [OF assms(2) ne, of inp ?h0] h0
  have "objs (snd ?r) a = objs h a"
    by simp
  then have kept: "objs (snd (Pipeline_run p inp a h)) a = objs h a"
    unfolding run by (auto split: prod.splits sum.splits)
  have ctx: "case fst (Pipeline_run p inp a h) of
            Inl (PipelineError errs c msg) \<Rightarrow> c = ?c
          | Inr (out, c) \<Rightarrow> c = ?c"
  proof (cases "fst ?r")
    case (Inl e)
    obtain errs c' msg where e: "e = PipelineError errs c' msg"
      by (cases e)
    with Inl run_configs_context [of "tasks p" inp ?c ?h0 errs c' msg] have "c' = ?c"
      by simp
    with Inl e show ?thesis
      unfolding run by (auto split: prod.splits sum.splits)
  next
    case (Inr out)
    then show ?thesis
      unfolding run by (auto split: prod.splits sum.splits)
  qed
  have fst_new: "fst (new_ctx a h) = ?c"
    by (simp add: new_ctx_def)
  from kept fst_new ne obj run ctx show ?thesis
    by blast
qed

theorem Pipeline_run_fresh_context_witness:
  "(0::nat) < fresh caller_heap \<and>
   objs (snd (Pipeline_run (Pipeline ''p'' two_tasks) (Str ''hi'') 0 caller_heap)) 0
     = objs caller_heap 0 \<and>
   fst (Pipeline_run (Pipeline ''p'' two_tasks) (Str ''hi'') 0 caller_heap)
     = Inr (Str ''a:hi!:b'', 1) \<and>
   objs (snd (new_ctx 0 caller_heap)) 1 = \<lparr>props = [(''user'', Str ''ann'')], steps = []\<rparr>"
proof -
  have 1: "0 < fresh caller_heap"
    by (simp add: caller_heap_def)
  have 2: "\<forall>cfg \<in> set (tasks (Pipeline ''p'' two_tasks)). \<forall>f \<in> set (config_fns cfg). leaves_object 0 f"
    by (simp add: two_tasks_def leaves_object_def step_a_def step_b_def bang_def)
  have out: "fst (Pipeline_run (Pipeline ''p'' two_tasks) (Str ''hi'') 0 caller_heap)
      = Inr (Str ''a:hi!:b'', 1)"
    by (simp add: pipeline_defs run_defs two_tasks_def step_a_def step_b_def)
  have c: "fresh caller_heap = 1" and old: "props (objs caller_heap 0) = [(''user'', Str ''ann'')]"
    by (simp_all add: caller_heap_def)
  from Pipeline_run_fresh_context [OF 1 2, of "Str ''hi''"]
  have "objs (snd (Pipeline_run (Pipeline ''p'' two_tasks) (Str ''hi'') 0 caller_heap)) 0
      = objs caller_heap 0"
    and "objs (snd (new_ctx 0 caller_heap)) (fresh caller_heap)
      = \<lparr>props = props (objs caller_heap 0), steps = []\<rparr>"
    by blast+
  with 1 out show ?thesis
    unfolding c old by simp
qed

end
